theory Spec2Isabelle
  imports Main "HOL-Library.Multiset"
begin

section \<open>Version labels and their sort keys\<close>

text \<open>
  A label is a Python \<^verbatim>\<open>str\<close>. A \<^typ>\<open>char\<close> stands for the code point of the same
  number, so the labels covered are those whose code points are below 256. In that
  range \<^verbatim>\<open>str.isdigit\<close> holds of the ten decimal digits and of the three superscript
  digits U+00B2, U+00B3 and U+00B9, while \<^verbatim>\<open>int\<close> reads decimal digits only.
\<close>

datatype py_error = ValueError | TypeError

datatype token = I int | S string

definition is_decimal :: "char \<Rightarrow> bool" where
  "is_decimal c = (48 \<le> (of_char c :: nat) \<and> (of_char c :: nat) \<le> 57)"

definition is_superscript :: "char \<Rightarrow> bool" where
  "is_superscript c = ((of_char c :: nat) = 178 \<or> (of_char c :: nat) = 179 \<or> (of_char c :: nat) = 185)"

definition isdigit :: "string \<Rightarrow> bool" where
  "isdigit x = (x \<noteq> [] \<and> list_all (\<lambda>c. is_decimal c \<or> is_superscript c) x)"

definition digit_value :: "char \<Rightarrow> int" where
  "digit_value c = int (of_char c) - 48"

text \<open>
  \<^verbatim>\<open>int(x)\<close>, on the tokens it is applied to (those with \<^verbatim>\<open>x.isdigit()\<close>): the value in
  base ten when every character is a decimal digit, \<^verbatim>\<open>ValueError\<close> otherwise. Python's
  integers are unbounded; the limit that some interpreters put on the number of
  digits \<^verbatim>\<open>int\<close> reads (4300 unless configured) is left out.
\<close>

definition py_int :: "string \<Rightarrow> py_error + int" where
  "py_int x = (if x \<noteq> [] \<and> list_all is_decimal x
               then Inr (foldl (\<lambda>n c. 10 * n + digit_value c) 0 x)
               else Inl ValueError)"

text \<open>
  \<^verbatim>\<open>re.split(r'[.-]', v)\<close>: a new token starts after every dot and every hyphen; empty
  tokens are kept. The first argument is the token read so far, reversed.
\<close>

definition is_separator :: "char \<Rightarrow> bool" where
  "is_separator c = (c = CHR ''.'' \<or> c = CHR ''-'')"

fun re_split :: "string \<Rightarrow> string \<Rightarrow> string list" where
  "re_split acc [] = [rev acc]"
| "re_split acc (c # cs) =
     (if is_separator c then rev acc # re_split [] cs else re_split (c # acc) cs)"

definition convert :: "string \<Rightarrow> py_error + token" where
  "convert x = (if isdigit x
                then (case py_int x of Inl e \<Rightarrow> Inl e | Inr n \<Rightarrow> Inr (I n))
                else Inr (S x))"

text \<open>A list comprehension whose element expression may raise: the first failure ends it.\<close>

fun comprehension :: "('a \<Rightarrow> py_error + 'b) \<Rightarrow> 'a list \<Rightarrow> py_error + 'b list" where
  "comprehension f [] = Inr []"
| "comprehension f (x # xs) =
     (case f x of
        Inl e \<Rightarrow> Inl e
      | Inr y \<Rightarrow> (case comprehension f xs of Inl e \<Rightarrow> Inl e | Inr ys \<Rightarrow> Inr (y # ys)))"

definition version_key :: "string \<Rightarrow> py_error + token list" where
  "version_key v = comprehension convert (re_split [] v)"

subsection \<open>Comparison of keys\<close>

text \<open>Strings compare by code point, position by position; a proper prefix is smaller.\<close>

fun str_lt :: "string \<Rightarrow> string \<Rightarrow> bool" where
  "str_lt [] [] = False"
| "str_lt [] (y # ys) = True"
| "str_lt (x # xs) [] = False"
| "str_lt (x # xs) (y # ys) =
     (if x = y then str_lt xs ys else (of_char x :: nat) < of_char y)"

text \<open>\<^verbatim>\<open><\<close> between an \<^verbatim>\<open>int\<close> and a \<^verbatim>\<open>str\<close> raises \<^verbatim>\<open>TypeError\<close>.\<close>

fun token_lt :: "token \<Rightarrow> token \<Rightarrow> py_error + bool" where
  "token_lt (I a) (I b) = Inr (a < b)"
| "token_lt (S a) (S b) = Inr (str_lt a b)"
| "token_lt (I a) (S b) = Inl TypeError"
| "token_lt (S a) (I b) = Inl TypeError"

text \<open>
  \<^verbatim>\<open><\<close> between two lists: the first position where the elements are not equal decides,
  by \<^verbatim>\<open><\<close> on those two elements; with no such position the shorter list is smaller.
  Equality between an \<^verbatim>\<open>int\<close> and a \<^verbatim>\<open>str\<close> is false and never raises.
\<close>

fun key_lt :: "token list \<Rightarrow> token list \<Rightarrow> py_error + bool" where
  "key_lt [] [] = Inr False"
| "key_lt [] (y # ys) = Inr True"
| "key_lt (x # xs) [] = Inr False"
| "key_lt (x # xs) (y # ys) = (if x = y then key_lt xs ys else token_lt x y)"

text \<open>
  \<open>key_le a b\<close>: the comparison \<^verbatim>\<open>b < a\<close> returns, and returns false; a sort may then leave
  \<open>a\<close> before \<open>b\<close>.
\<close>

definition key_le :: "token list \<Rightarrow> token list \<Rightarrow> bool" where
  "key_le a b = (key_lt b a = Inr False)"

definition label_le :: "string \<Rightarrow> string \<Rightarrow> bool" where
  "label_le a b =
     (case version_key a of
        Inl e \<Rightarrow> False
      | Inr ka \<Rightarrow> (case version_key b of Inl e \<Rightarrow> False | Inr kb \<Rightarrow> key_le ka kb))"

text \<open>\<^verbatim>\<open>version_key(a) < version_key(b)\<close>, as the sort evaluates it for two labels.\<close>

definition label_lt :: "string \<Rightarrow> string \<Rightarrow> py_error + bool" where
  "label_lt a b =
     (case version_key a of
        Inl e \<Rightarrow> Inl e
      | Inr ka \<Rightarrow> (case version_key b of Inl e \<Rightarrow> Inl e | Inr kb \<Rightarrow> key_lt ka kb))"

section \<open>Sorting by key and the merged version list\<close>

text \<open>
  \<^verbatim>\<open>sorted(xs, key=version_key)\<close> computes the key of every element first, in order, and
  then sorts the elements by \<^verbatim>\<open><\<close> on the keys; the sort is stable, and an exception of
  a key computation or of a comparison ends it. The model is a stable insertion sort
  on the pairs of key and label: an element goes before the first one that is not
  smaller than it.
\<close>

fun insort_py :: "token list \<times> 'a \<Rightarrow> (token list \<times> 'a) list \<Rightarrow> py_error + (token list \<times> 'a) list" where
  "insort_py x [] = Inr [x]"
| "insort_py x (y # ys) =
     (case key_lt (fst y) (fst x) of
        Inl e \<Rightarrow> Inl e
      | Inr True \<Rightarrow> (case insort_py x ys of Inl e \<Rightarrow> Inl e | Inr r \<Rightarrow> Inr (y # r))
      | Inr False \<Rightarrow> Inr (x # y # ys))"

fun sort_py :: "(token list \<times> 'a) list \<Rightarrow> py_error + (token list \<times> 'a) list" where
  "sort_py [] = Inr []"
| "sort_py (x # xs) = (case sort_py xs of Inl e \<Rightarrow> Inl e | Inr r \<Rightarrow> insort_py x r)"

definition with_key :: "string \<Rightarrow> py_error + token list \<times> string" where
  "with_key v = (case version_key v of Inl e \<Rightarrow> Inl e | Inr k \<Rightarrow> Inr (k, v))"

definition sorted_by_key :: "string list \<Rightarrow> py_error + string list" where
  "sorted_by_key xs =
     (case comprehension with_key xs of
        Inl e \<Rightarrow> Inl e
      | Inr d \<Rightarrow> (case sort_py d of Inl e \<Rightarrow> Inl e | Inr r \<Rightarrow> Inr (map snd r)))"

text \<open>
  \<^verbatim>\<open>list(set(xs))\<close> lists every element of \<open>xs\<close> once, in an order the language leaves
  open. The order is a parameter \<open>set_order\<close> of the model, and \<open>iteration_order\<close> says
  what is known of it.
\<close>

definition iteration_order :: "(string list \<Rightarrow> string list) \<Rightarrow> bool" where
  "iteration_order set_order = (\<forall>xs. distinct (set_order xs) \<and> set (set_order xs) = set xs)"

text \<open>
  Lines 116 to 119 of \<^verbatim>\<open>main\<close>:
  \<^verbatim>\<open>sorted(list(set(current_game_versions + [target_mc_version])), key=version_key)\<close>.
\<close>

definition new_game_versions ::
  "(string list \<Rightarrow> string list) \<Rightarrow> string \<Rightarrow> string list \<Rightarrow> py_error + string list" where
  "new_game_versions set_order target_mc_version current_game_versions =
     sorted_by_key (set_order (current_game_versions @ [target_mc_version]))"

section \<open>The catalog client\<close>

text \<open>
  A release object of the catalog's answer. The script reads its fields with
  \<^verbatim>\<open>.get\<close>, so each field may be absent.
\<close>

record release =
  r_name :: "string option"
  r_version_number :: "string option"
  r_id :: "string option"
  r_game_versions :: "string list option"

datatype request = GET string | PATCH "string option" "string list"

text \<open>
  What the script prints. A line of fixed text is \<open>Print\<close> of that text, without the
  symbol that leads it in the source; a formatted line keeps the values it is
  built from.
\<close>

datatype line =
    Print string
  | TargetVersion string
  | ProcessingProject string
  | FetchFailed string string
  | NoMatchingVersions string "string list"
  | Skipping "string option" "string option" string
  | Updating "string option" "string option" "string list" "string list"
  | UpdateFailed "string option" string
  | Done nat

record state =
  stdout :: "line list"
  requests :: "request list"
  total_updated :: nat

text \<open>
  The network is a parameter. Its first argument is the number of requests sent
  before, so that the same request may be answered differently later in a run.
  \<open>Inl e\<close> and \<open>Some e\<close> stand for a \<^verbatim>\<open>RequestException\<close> with text \<open>e\<close>, which
  \<^verbatim>\<open>raise_for_status\<close> raises too on a response that is not a success. The headers
  are the same in every request and are left out; so is the pause after each write.
\<close>

record network =
  get_response :: "nat \<Rightarrow> string \<Rightarrow> string + release list"
  patch_response :: "nat \<Rightarrow> string option \<Rightarrow> string list \<Rightarrow> string option"

definition print :: "line \<Rightarrow> state \<Rightarrow> state" where
  "print l s = s\<lparr>stdout := stdout s @ [l]\<rparr>"

definition send :: "request \<Rightarrow> state \<Rightarrow> state" where
  "send r s = s\<lparr>requests := requests s @ [r]\<rparr>"

definition get_project_versions :: "network \<Rightarrow> string \<Rightarrow> state \<Rightarrow> release list \<times> state" where
  "get_project_versions net slug s =
     (case get_response net (length (requests s)) slug of
        Inr versions \<Rightarrow> (versions, send (GET slug) s)
      | Inl e \<Rightarrow> ([], print (FetchFailed slug e) (send (GET slug) s)))"

definition patch_project_version ::
  "network \<Rightarrow> string option \<Rightarrow> string list \<Rightarrow> state \<Rightarrow> bool \<times> state" where
  "patch_project_version net version_id new s =
     (case patch_response net (length (requests s)) version_id new of
        None \<Rightarrow> (True, send (PATCH version_id new) s)
      | Some e \<Rightarrow> (False, print (UpdateFailed version_id e) (send (PATCH version_id new) s)))"

section \<open>The update driver\<close>

definition current_game_versions :: "release \<Rightarrow> string list" where
  "current_game_versions version_data =
     (case r_game_versions version_data of None \<Rightarrow> [] | Some g \<Rightarrow> g)"

text \<open>
  The body of the loop over \<^verbatim>\<open>versions_to_patch\<close>. An exception that nothing catches
  ends the run: \<open>Inl\<close> carries it with the state reached.
\<close>

definition update_version ::
  "(string list \<Rightarrow> string list) \<Rightarrow> network \<Rightarrow> string \<Rightarrow> state \<Rightarrow> release
     \<Rightarrow> py_error \<times> state + state" where
  "update_version set_order net target_mc_version s version_data =
     (let version_name = r_name version_data;
          version_number = r_version_number version_data;
          version_id = r_id version_data;
          current = current_game_versions version_data
      in if target_mc_version \<in> set current
         then Inr (print (Skipping version_name version_number target_mc_version) s)
         else (case new_game_versions set_order target_mc_version current of
                 Inl e \<Rightarrow> Inl (e, s)
               | Inr new \<Rightarrow>
                   (let s1 = print (Updating version_name version_number current new) s;
                        (success, s2) = patch_project_version net version_id new s1
                    in Inr (if success then s2\<lparr>total_updated := total_updated s2 + 1\<rparr> else s2))))"

fun update_versions ::
  "(string list \<Rightarrow> string list) \<Rightarrow> network \<Rightarrow> string \<Rightarrow> state \<Rightarrow> release list
     \<Rightarrow> py_error \<times> state + state" where
  "update_versions set_order net target s [] = Inr s"
| "update_versions set_order net target s (version_data # rest) =
     (case update_version set_order net target s version_data of
        Inl x \<Rightarrow> Inl x
      | Inr s' \<Rightarrow> update_versions set_order net target s' rest)"

text \<open>Lines 99 to 101: the releases whose \<^verbatim>\<open>version_number\<close> is among the configured labels.\<close>

definition versions_to_patch :: "string list \<Rightarrow> release list \<Rightarrow> release list" where
  "versions_to_patch target_project_versions all_mod_versions =
     filter (\<lambda>v. case r_version_number v of None \<Rightarrow> False
                 | Some n \<Rightarrow> n \<in> set target_project_versions) all_mod_versions"

definition separator :: string where
  "separator = replicate 20 (CHR ''-'')"

definition process_project ::
  "(string list \<Rightarrow> string list) \<Rightarrow> network \<Rightarrow> string \<Rightarrow> state \<Rightarrow> string \<times> string list
     \<Rightarrow> py_error \<times> state + state" where
  "process_project set_order net target s project =
     (let slug = fst project; target_project_versions = snd project;
          s1 = print (ProcessingProject slug) s;
          (all_mod_versions, s2) = get_project_versions net slug s1
      in if all_mod_versions = [] then Inr s2
         else (let selected = versions_to_patch target_project_versions all_mod_versions;
                   s3 = (if selected = []
                         then print (NoMatchingVersions slug target_project_versions) s2
                         else s2)
               in case update_versions set_order net target s3 selected of
                    Inl x \<Rightarrow> Inl x
                  | Inr s4 \<Rightarrow> Inr (print (Print separator) s4)))"

fun process_projects ::
  "(string list \<Rightarrow> string list) \<Rightarrow> network \<Rightarrow> string \<Rightarrow> state \<Rightarrow> (string \<times> string list) list
     \<Rightarrow> py_error \<times> state + state" where
  "process_projects set_order net target s [] = Inr s"
| "process_projects set_order net target s (project # rest) =
     (case process_project set_order net target s project of
        Inl x \<Rightarrow> Inl x
      | Inr s' \<Rightarrow> process_projects set_order net target s' rest)"

text \<open>
  The inputs of a run: the argument vector, the value of \<^verbatim>\<open>MODRINTH_TOKEN\<close> in the
  environment, and what reading \<^verbatim>\<open>main.json\<close> gives: no file, text that is not JSON, or
  the projects with their labels, in the order of the file.
\<close>

datatype config_file =
    FileNotFoundError
  | JSONDecodeError
  | Loaded "(string \<times> string list) list"

text \<open>How a run ends: \<^verbatim>\<open>sys.exit\<close> or the end of \<^verbatim>\<open>main\<close>, or an exception nothing catches.\<close>

datatype outcome = Exit nat | Uncaught py_error

fun exit_code :: "outcome \<Rightarrow> nat" where
  "exit_code (Exit n) = n"
| "exit_code (Uncaught e) = 1"

definition no_argument_message :: string where
  "no_argument_message = ''ERROR: Please provide the target Minecraft version as an argument.''"

definition example_message :: string where
  "example_message = ''   Example: python main.py 1.21.9''"

definition starting_message :: string where
  "starting_message = ''Starting Modrinth Automated Version Updater...''"

definition no_token_message :: string where
  "no_token_message = ''ERROR: MODRINTH_TOKEN environment variable not set.''"

definition not_found_message :: string where
  "not_found_message = ''ERROR: Configuration file 'main.json' not found.''"

definition parse_message :: string where
  "parse_message = ''ERROR: Could not parse 'main.json'. Please check for JSON errors.''"

definition no_projects_message :: string where
  "no_projects_message = ''No projects found in 'main.json' to update. Exiting.''"

definition initial :: state where
  "initial = \<lparr>stdout = [], requests = [], total_updated = 0\<rparr>"

definition main ::
  "string list \<Rightarrow> string option \<Rightarrow> config_file \<Rightarrow> (string list \<Rightarrow> string list) \<Rightarrow> network
     \<Rightarrow> outcome \<times> state" where
  "main argv MODRINTH_TOKEN config set_order net =
     (if length argv < 2
      then (Exit 1, print (Print example_message) (print (Print no_argument_message) initial))
      else
        (let target_mc_version = argv ! 1;
             s0 = print (Print starting_message) initial
         in if MODRINTH_TOKEN = None \<or> MODRINTH_TOKEN = Some []
            then (Exit 1, print (Print no_token_message) s0)
            else (case config of
                    FileNotFoundError \<Rightarrow> (Exit 1, print (Print not_found_message) s0)
                  | JSONDecodeError \<Rightarrow> (Exit 1, print (Print parse_message) s0)
                  | Loaded projects_to_update \<Rightarrow>
                      if projects_to_update = []
                      then (Exit 0, print (Print no_projects_message) s0)
                      else (case process_projects set_order net target_mc_version
                                   (print (TargetVersion target_mc_version) s0) projects_to_update of
                              Inl (e, s) \<Rightarrow> (Uncaught e, s)
                            | Inr s \<Rightarrow> (Exit 0, print (Done (total_updated s)) s)))))"

section \<open>Notions used in the statements\<close>

text \<open>The state a loop has reached when it ends, by its last iteration or by an exception.\<close>

definition final_state :: "py_error \<times> state + state \<Rightarrow> state" where
  "final_state r = (case r of Inl (e, s) \<Rightarrow> s | Inr s \<Rightarrow> s)"

text \<open>
  \<open>write_for set_order target v r\<close>: the request \<open>r\<close> is the write that the loop body
  sends for the release \<open>v\<close>, whose list lacks the target and merges without an
  exception.
\<close>

definition write_for ::
  "(string list \<Rightarrow> string list) \<Rightarrow> string \<Rightarrow> release \<Rightarrow> request \<Rightarrow> bool" where
  "write_for set_order target v r =
     (target \<notin> set (current_game_versions v) \<and>
      (case new_game_versions set_order target (current_game_versions v) of
         Inl e \<Rightarrow> False
       | Inr new \<Rightarrow> r = PATCH (r_id v) new))"

text \<open>
  \<open>selected_write set_order net target project r\<close>: \<open>r\<close> is such a write for a release
  that the catalog returned for the project and whose label is configured for it.
\<close>

definition selected_write ::
  "(string list \<Rightarrow> string list) \<Rightarrow> network \<Rightarrow> string \<Rightarrow> string \<times> string list \<Rightarrow> request \<Rightarrow> bool" where
  "selected_write set_order net target project r =
     (\<exists>n all_mod_versions v.
        get_response net n (fst project) = Inr all_mod_versions \<and>
        v \<in> set (versions_to_patch (snd project) all_mod_versions) \<and>
        write_for set_order target v r)"

text \<open>
  The number of writes among the requests \<open>rs\<close> that the network answered with
  success, \<open>i\<close> being the number of requests sent before \<open>rs\<close>.
\<close>

fun successes :: "network \<Rightarrow> nat \<Rightarrow> request list \<Rightarrow> nat" where
  "successes net i [] = 0"
| "successes net i (GET slug # rs) = successes net (Suc i) rs"
| "successes net i (PATCH version_id new # rs) =
     (if patch_response net i version_id new = None then 1 else 0) + successes net (Suc i) rs"

text \<open>
  \<open>extends net P s s'\<close>: from \<open>s\<close> to \<open>s'\<close> requests were only added, each of them
  satisfies \<open>P\<close>, and the counter grew by the number of successful writes among them.
\<close>

definition extends :: "network \<Rightarrow> (request \<Rightarrow> bool) \<Rightarrow> state \<Rightarrow> state \<Rightarrow> bool" where
  "extends net P s s' =
     (\<exists>added. requests s' = requests s @ added \<and> list_all P added \<and>
        total_updated s' = total_updated s + successes net (length (requests s)) added)"

section \<open>Example inputs\<close>

definition example_release :: "string \<Rightarrow> string \<Rightarrow> string list \<Rightarrow> release" where
  "example_release i n g =
     \<lparr>r_name = Some n, r_version_number = Some n, r_id = Some i, r_game_versions = Some g\<rparr>"

text \<open>A network that answers every listing with \<open>rs\<close> and accepts every write.\<close>

definition example_network :: "release list \<Rightarrow> network" where
  "example_network rs =
     \<lparr>get_response = (\<lambda>n slug. Inr rs), patch_response = (\<lambda>n version_id new. None)\<rparr>"

text \<open>A network that cannot list the project \<open>broken\<close> and rejects every second request.\<close>

definition flaky_network :: "release list \<Rightarrow> network" where
  "flaky_network rs =
     \<lparr>get_response = (\<lambda>n slug. if slug = ''broken'' then Inl ''timed out'' else Inr rs),
      patch_response = (\<lambda>n version_id new. if even n then Some ''503'' else None)\<rparr>"

text \<open>An order of listing a set that differs from the order of insertion.\<close>

definition reversed_order :: "string list \<Rightarrow> string list" where
  "reversed_order xs = rev (remdups xs)"

section \<open>Properties of keys and of their comparison\<close>

lemmas key_defs = version_key_def convert_def isdigit_def is_decimal_def is_superscript_def
  py_int_def is_separator_def digit_value_def

lemma str_lt_irrefl [simp]: "\<not> str_lt a a"
  by (induction a) auto
lemma str_lt_asym: "str_lt a b \<Longrightarrow> \<not> str_lt b a"
  by (induction a b rule: str_lt.induct) (auto split: if_splits)
lemma char_code_cases: "x \<noteq> y \<Longrightarrow> (of_char x :: nat) < of_char y \<or> (of_char y :: nat) < of_char x"
  using of_char_eq_iff [where ?'a = nat, of x y] by linarith
lemma str_lt_total: "a \<noteq> b \<Longrightarrow> str_lt a b \<or> str_lt b a"
  by (induction a b rule: str_lt.induct) (auto split: if_splits dest: char_code_cases)
lemma str_lt_trans: "str_lt a b \<Longrightarrow> str_lt b c \<Longrightarrow> str_lt a c"
proof (induction a b arbitrary: c rule: str_lt.induct)
  case (4 x xs y ys)
  then show ?case by (cases c) (auto split: if_splits)
qed (auto elim: str_lt.elims)

lemma token_lt_comparable: "token_lt a b = Inl e \<longleftrightarrow> token_lt b a = Inl e"
  by (cases a; cases b) auto
lemma token_le_trans:
  "x \<noteq> y \<Longrightarrow> y \<noteq> z \<Longrightarrow> token_lt y x = Inr False \<Longrightarrow> token_lt z y = Inr False
   \<Longrightarrow> z \<noteq> x \<and> token_lt z x = Inr False"
  by (cases x; cases y; cases z) (auto dest: str_lt_total str_lt_trans str_lt_asym)

lemma key_lt_refl [simp]: "key_lt a a = Inr False"
  by (induction a) auto
lemma key_lt_comparable: "key_lt a b = Inl e \<longleftrightarrow> key_lt b a = Inl e"
  by (induction a b rule: key_lt.induct) (auto simp: token_lt_comparable)
lemma key_le_trans: "key_le a b \<Longrightarrow> key_le b c \<Longrightarrow> key_le a c"
  unfolding key_le_def
proof (induction a arbitrary: b c)
  case Nil
  then show ?case by (cases b; cases c) (auto split: if_splits)
next
  case (Cons x a)
  show ?case
  proof (cases b)
    case Nil
    with Cons.prems show ?thesis by simp
  next
    case b: (Cons y b')
    show ?thesis
    proof (cases c)
      case Nil
      with Cons.prems b show ?thesis by (simp split: if_splits)
    next
      case c: (Cons z c')
      show ?thesis using Cons.prems Cons.IH[of b' c'] token_le_trans[of x y z] unfolding b c
        by (auto split: if_splits)
    qed
  qed
qed

lemma re_split_chars:
  "t \<in> set (re_split acc v) \<Longrightarrow> set t \<subseteq> set acc \<union> set v"
  by (induction acc v rule: re_split.induct) (auto split: if_splits)

lemma convert_plain:
  assumes "\<forall>c\<in>set x. \<not> is_superscript c"
  shows "convert x = Inr (if x \<noteq> [] \<and> list_all is_decimal x
                          then I (foldl (\<lambda>n c. 10 * n + digit_value c) 0 x) else S x)"
proof -
  from assms have "list_all (\<lambda>c. is_decimal c \<or> is_superscript c) x = list_all is_decimal x"
    by (induction x) auto
  then show ?thesis by (simp add: convert_def isdigit_def py_int_def)
qed

lemma comprehension_total:
  "\<forall>x\<in>set xs. f x = Inr (g x) \<Longrightarrow> comprehension f xs = Inr (map g xs)"
  by (induction xs) auto

text \<open>
  On a label without superscript digits the key is the list of the tokens between
  the separators, each token of decimal digits read as a number and every other
  token kept as it is.
\<close>

lemma version_key_plain:
  assumes "\<forall>c\<in>set v. \<not> is_superscript c"
  shows "version_key v =
    Inr (map (\<lambda>x. if x \<noteq> [] \<and> list_all is_decimal x
                   then I (foldl (\<lambda>n c. 10 * n + digit_value c) 0 x) else S x)
             (re_split [] v))"
  unfolding version_key_def
proof (rule comprehension_total, rule ballI)
  fix x assume "x \<in> set (re_split [] v)"
  then have "set x \<subseteq> set v" using re_split_chars [of x "[]" v] by simp
  with assms have "\<forall>c\<in>set x. \<not> is_superscript c" by auto
  then show "convert x = Inr (if x \<noteq> [] \<and> list_all is_decimal x
                          then I (foldl (\<lambda>n c. 10 * n + digit_value c) 0 x) else S x)"
    by (rule convert_plain)
qed

text \<open>
  Claim C2. Keys compare runs of digits as numbers: the key of 1.21.9 is smaller than
  the key of 1.21.10, although the label 1.21.10 is the smaller string, and the key
  of 1.21 is smaller than the key of 1.21.1; sorting by key orders the four labels
  accordingly.
\<close>

theorem version_key_numeric_order:
  "label_lt ''1.21.9'' ''1.21.10'' = Inr True
   \<and> label_lt ''1.21.10'' ''1.21.9'' = Inr False
   \<and> label_lt ''1.21'' ''1.21.1'' = Inr True
   \<and> label_lt ''1.21.1'' ''1.21'' = Inr False
   \<and> str_lt ''1.21.10'' ''1.21.9''
   \<and> sorted_by_key [''1.21.10'', ''1.21.1'', ''1.21.9'', ''1.21'']
       = Inr [''1.21'', ''1.21.1'', ''1.21.9'', ''1.21.10'']"
  by (simp add: label_lt_def key_defs sorted_by_key_def with_key_def)

text \<open>
  Claim C5. The label made of the one character U+00B2 (superscript two) has no key:
  \<^verbatim>\<open>isdigit\<close> holds of its only token, and \<^verbatim>\<open>int\<close> raises \<^verbatim>\<open>ValueError\<close> on it.
\<close>

theorem version_key_superscript_raises:
  "isdigit [CHR 0xB2] \<and> version_key [CHR 0xB2] = Inl ValueError"
  by (simp add: key_defs)

section \<open>Properties of the sort and of the merged list\<close>

lemma token_lt_asym: "token_lt a b = Inr True \<Longrightarrow> token_lt b a = Inr False"
  by (cases a; cases b) (auto dest: str_lt_asym)
lemma token_lt_antisym: "token_lt a b = Inr False \<Longrightarrow> token_lt b a = Inr False \<Longrightarrow> a = b"
  by (cases a; cases b) (auto dest: str_lt_total)
lemma key_lt_asym: "key_lt a b = Inr True \<Longrightarrow> key_lt b a = Inr False"
  by (induction a b rule: key_lt.induct) (auto dest: token_lt_asym split: if_splits)
lemma key_le_antisym: "key_le a b \<Longrightarrow> key_le b a \<Longrightarrow> a = b"
  unfolding key_le_def
  by (induction a b rule: key_lt.induct) (auto dest: token_lt_antisym split: if_splits)
lemma key_le_refl [simp]: "key_le a a"
  by (simp add: key_le_def)

lemma comprehension_Inr: "comprehension f xs = Inr ys \<longleftrightarrow> map f xs = map Inr ys"
proof (induction xs arbitrary: ys)
  case Nil
  then show ?case by auto
next
  case (Cons x xs)
  show ?case
  proof (cases "f x")
    case (Inl e)
    then show ?thesis by (cases ys) auto
  next
    case fx: (Inr y)
    show ?thesis
    proof (cases "comprehension f xs")
      case (Inl e)
      then have "map f xs \<noteq> map Inr zs" for zs using Cons.IH [of zs] by simp
      with Inl fx show ?thesis by (cases ys) auto
    next
      case (Inr zs)
      then have "map f xs = map Inr zs" using Cons.IH [of zs] by simp
      with Inr fx show ?thesis by (cases ys) auto
    qed
  qed
qed

lemma comprehension_with_key:
  assumes "comprehension with_key xs = Inr d"
  shows "map snd d = xs" and "\<forall>p\<in>set d. version_key (snd p) = Inr (fst p)"
proof -
  from assms have "map with_key xs = map Inr d"
    by (simp add: comprehension_Inr)
  then have "map snd d = xs \<and> (\<forall>p\<in>set d. version_key (snd p) = Inr (fst p))"
  proof (induction xs arbitrary: d)
    case Nil
    then show ?case by simp
  next
    case (Cons x xs)
    then show ?case by (cases d) (auto simp: with_key_def split: sum.splits)
  qed
  then show "map snd d = xs" and "\<forall>p\<in>set d. version_key (snd p) = Inr (fst p)" by simp_all
qed

lemma mset_insort_py: "insort_py x ys = Inr r \<Longrightarrow> mset r = add_mset x (mset ys)"
  by (induction ys arbitrary: r) (auto split: sum.splits bool.splits)

lemma mset_sort_py: "sort_py d = Inr r \<Longrightarrow> mset r = mset d"
  by (induction d arbitrary: r) (auto split: sum.splits dest: mset_insort_py)

lemma sorted_insort_py:
  assumes "sorted_wrt (\<lambda>a b. key_le (fst a) (fst b)) ys" and "insort_py x ys = Inr r"
  shows "sorted_wrt (\<lambda>a b. key_le (fst a) (fst b)) r"
  using assms
proof (induction ys arbitrary: r)
  case Nil
  then show ?case by auto
next
  case (Cons y ys)
  show ?case
  proof (cases "key_lt (fst y) (fst x)")
    case (Inl e)
    with Cons.prems show ?thesis by simp
  next
    case (Inr less)
    show ?thesis
    proof (cases less)
      case True
      with Inr Cons.prems obtain r' where r': "insort_py x ys = Inr r'" "r = y # r'"
        by (auto split: sum.splits)
      have "set r' = insert x (set ys)"
        using mset_insort_py [OF r'(1)] by (metis set_mset_add_mset_insert set_mset_mset)
      moreover have "key_le (fst y) (fst x)"
        using Inr True by (simp add: key_le_def key_lt_asym)
      moreover have "sorted_wrt (\<lambda>a b. key_le (fst a) (fst b)) r'"
        using Cons.IH [OF _ r'(1)] Cons.prems(1) by simp
      ultimately show ?thesis using Cons.prems(1) r'(2) by auto
    next
      case False
      with Inr Cons.prems have r: "r = x # y # ys" by simp
      have xy: "key_le (fst x) (fst y)" using Inr False by (simp add: key_le_def)
      have "\<forall>z\<in>set ys. key_le (fst x) (fst z)"
        using Cons.prems(1) xy by (auto intro: key_le_trans)
      then show ?thesis using Cons.prems(1) xy r by simp
    qed
  qed
qed

lemma sorted_sort_py: "sort_py d = Inr r \<Longrightarrow> sorted_wrt (\<lambda>a b. key_le (fst a) (fst b)) r"
proof (induction d arbitrary: r)
  case Nil
  then show ?case by simp
next
  case (Cons x d)
  then show ?case by (auto split: sum.splits intro: sorted_insort_py)
qed

lemma sorted_by_key_Inr:
  assumes "sorted_by_key xs = Inr r"
  shows "mset r = mset xs" and "sorted_wrt label_le r"
proof -
  from assms obtain d r' where d: "comprehension with_key xs = Inr d"
    and r': "sort_py d = Inr r'" and r: "r = map snd r'"
    by (auto simp: sorted_by_key_def split: sum.splits)
  have m: "mset r' = mset d" by (rule mset_sort_py [OF r'])
  then have "mset (map snd r') = mset (map snd d)" by simp
  then show "mset r = mset xs" using comprehension_with_key(1) [OF d] r by simp
  have keys: "\<forall>p\<in>set r'. version_key (snd p) = Inr (fst p)"
    using comprehension_with_key(2) [OF d] m by (metis set_mset_mset)
  have "sorted_wrt (\<lambda>a b. label_le (snd a) (snd b)) r'"
    using sorted_sort_py [OF r'] keys
    by (rule_tac sorted_wrt_mono_rel [rotated]) (auto simp: label_le_def)
  then show "sorted_wrt label_le r" by (simp add: r sorted_wrt_map)
qed

lemma sorted_wrt_related:
  "sorted_wrt P xs \<Longrightarrow> a \<in> set xs \<Longrightarrow> b \<in> set xs \<Longrightarrow> a = b \<or> P a b \<or> P b a"
  by (induction xs) auto

lemma key_le_comparable: "key_le a b \<or> key_le b a \<Longrightarrow> \<exists>r. key_lt a b = Inr r"
proof (cases "key_lt a b")
  case (Inl e)
  assume "key_le a b \<or> key_le b a"
  with Inl key_lt_comparable [of a b e] show ?thesis by (auto simp: key_le_def)
qed auto

lemma sort_py_comparable:
  assumes "sort_py d = Inr r" and "a \<in> set d" and "b \<in> set d"
  shows "\<exists>less. key_lt (fst a) (fst b) = Inr less"
proof -
  have "set r = set d" using mset_sort_py [OF assms(1)] by (metis set_mset_mset)
  with assms sorted_wrt_related [OF sorted_sort_py [OF assms(1)], of a b]
  have "a = b \<or> key_le (fst a) (fst b) \<or> key_le (fst b) (fst a)" by simp
  then show ?thesis using key_le_comparable [of "fst a" "fst b"] by auto
qed

lemma insort_py_total:
  assumes "\<forall>y\<in>set ys. \<exists>less. key_lt (fst y) (fst x) = Inr less"
  shows "\<exists>r. insort_py x ys = Inr r"
  using assms by (induction ys) (auto split: sum.splits bool.splits)

lemma sort_py_total:
  assumes "\<forall>a\<in>set d. \<forall>b\<in>set d. \<exists>less. key_lt (fst a) (fst b) = Inr less"
  shows "\<exists>r. sort_py d = Inr r"
  using assms
proof (induction d)
  case Nil
  then show ?case by simp
next
  case (Cons x d)
  then obtain r where r: "sort_py d = Inr r" by auto
  have "set r = set d" using mset_sort_py [OF r] by (metis set_mset_mset)
  with Cons.prems have "\<forall>y\<in>set r. \<exists>less. key_lt (fst y) (fst x) = Inr less" by simp
  from insort_py_total [OF this] r show ?case by simp
qed

lemma token_lt_error: "token_lt a b = Inl e \<Longrightarrow> e = TypeError"
  by (cases a; cases b) auto

lemma key_lt_error: "key_lt a b = Inl e \<Longrightarrow> e = TypeError"
  by (induction a b rule: key_lt.induct) (auto split: if_splits dest: token_lt_error)

lemma sort_py_Inl:
  "(\<exists>e. sort_py d = Inl e) \<longleftrightarrow>
   (\<exists>a\<in>set d. \<exists>b\<in>set d. key_lt (fst a) (fst b) = Inl TypeError)"
proof
  assume fails: "\<exists>e. sort_py d = Inl e"
  have "\<not> (\<forall>a\<in>set d. \<forall>b\<in>set d. \<exists>less. key_lt (fst a) (fst b) = Inr less)"
  proof
    assume "\<forall>a\<in>set d. \<forall>b\<in>set d. \<exists>less. key_lt (fst a) (fst b) = Inr less"
    from sort_py_total [OF this] fails show False by auto
  qed
  then obtain a b where ab: "a \<in> set d" "b \<in> set d"
    and no: "\<forall>less. key_lt (fst a) (fst b) \<noteq> Inr less"
    by blast
  from no obtain e where "key_lt (fst a) (fst b) = Inl e"
    by (cases "key_lt (fst a) (fst b)") auto
  with key_lt_error [OF this] ab
  show "\<exists>a\<in>set d. \<exists>b\<in>set d. key_lt (fst a) (fst b) = Inl TypeError" by blast
next
  assume "\<exists>a\<in>set d. \<exists>b\<in>set d. key_lt (fst a) (fst b) = Inl TypeError"
  then obtain a b where ab: "a \<in> set d" "b \<in> set d" "key_lt (fst a) (fst b) = Inl TypeError"
    by blast
  show "\<exists>e. sort_py d = Inl e"
  proof (cases "sort_py d")
    case (Inr r)
    from sort_py_comparable [OF Inr ab(1,2)] ab(3) show ?thesis by simp
  qed auto
qed

text \<open>
  The sort keeps elements of equal key in the order of the input. With \<open>sort_py_Inl\<close>
  and \<open>sorted_sort_py\<close> this fixes the outcome of the sort without reference to the
  way it proceeds: it raises exactly when two keys of the list do not compare, and
  otherwise returns the one stable ascending arrangement.
\<close>

lemma insort_py_stable:
  "insort_py x ys = Inr r \<Longrightarrow> filter (\<lambda>p. fst p = k) r = filter (\<lambda>p. fst p = k) (x # ys)"
proof (induction ys arbitrary: r)
  case Nil
  then show ?case by auto
next
  case (Cons y ys)
  show ?case
  proof (cases "key_lt (fst y) (fst x)")
    case (Inl e)
    with Cons.prems show ?thesis by simp
  next
    case (Inr less)
    show ?thesis
    proof (cases less)
      case True
      with Inr Cons.prems obtain r' where r': "insort_py x ys = Inr r'" "r = y # r'"
        by (auto split: sum.splits)
      from True Inr have "fst y \<noteq> fst x" by auto
      with Cons.IH [OF r'(1)] r'(2) show ?thesis by auto
    next
      case False
      with Inr Cons.prems show ?thesis by simp
    qed
  qed
qed

lemma sort_py_stable:
  "sort_py d = Inr r \<Longrightarrow> filter (\<lambda>p. fst p = k) r = filter (\<lambda>p. fst p = k) d"
proof (induction d arbitrary: r)
  case Nil
  then show ?case by simp
next
  case (Cons x d)
  then obtain r' where r': "sort_py d = Inr r'" "insort_py x r' = Inr r"
    by (auto split: sum.splits)
  from insort_py_stable [OF r'(2), of k] Cons.IH [OF r'(1)] show ?case by simp
qed

lemma sorted_label_unique:
  assumes "sorted_wrt label_le xs" and "sorted_wrt label_le ys"
    and "distinct xs" and "distinct ys" and "set xs = set ys"
    and "inj_on version_key (set xs)"
  shows "xs = ys"
  using assms
proof (induction xs arbitrary: ys)
  case Nil
  then show ?case by simp
next
  case (Cons x xs)
  then obtain y ys' where ys: "ys = y # ys'" by (cases ys) auto
  have anti: "a = b" if "label_le a b" "label_le b a" "a \<in> set (x # xs)" "b \<in> set (x # xs)" for a b
  proof -
    from that(1,2) have "version_key a = version_key b"
      by (auto simp: label_le_def split: sum.splits dest: key_le_antisym)
    then show ?thesis using inj_onD [OF Cons.prems(6), of a b] that(3,4) by blast
  qed
  have "x = y"
  proof (rule ccontr)
    assume ne: "x \<noteq> y"
    with Cons.prems(5) ys have "x \<in> set ys'" "y \<in> set xs" by auto
    with Cons.prems(1,2) ys have "label_le y x" "label_le x y" by auto
    with anti [of x y] \<open>y \<in> set xs\<close> ne show False by auto
  qed
  moreover have "xs = ys'"
  proof (rule Cons.IH)
    show "set xs = set ys'" using Cons.prems(3,4,5) ys \<open>x = y\<close> by auto
    show "inj_on version_key (set xs)" using Cons.prems(6) by (auto simp: inj_on_def)
  qed (use Cons.prems ys in auto)
  ultimately show ?case using ys by simp
qed

lemma two_element_orders:
  assumes "distinct xs" and "set xs = {a, b}" and "a \<noteq> b"
  shows "xs = [a, b] \<or> xs = [b, a]"
proof -
  have "length xs = 2" using assms distinct_card [of xs] by simp
  then obtain x y where xs: "xs = [x, y]"
    by (cases xs; cases "tl xs") auto
  with assms show ?thesis by auto
qed

lemma version_key_1_21_9: "version_key ''1.21.9'' = Inr [I 1, I 21, I 9]"
  by (simp add: key_defs)

lemma version_key_1_21_rc1: "version_key ''1.21-rc1'' = Inr [I 1, I 21, S ''rc1'']"
  by (simp add: key_defs)

text \<open>
  Claim C10. Merging the target 1.21-rc1 into the list that holds 1.21.9 raises
  \<^verbatim>\<open>TypeError\<close>, whatever the order in which the set is listed: the two keys differ
  first where one has a number and the other a string.
\<close>

theorem new_game_versions_raises:
  assumes "iteration_order set_order"
  shows "new_game_versions set_order ''1.21-rc1'' [''1.21.9''] = Inl TypeError"
proof -
  from assms have "distinct (set_order [''1.21.9'', ''1.21-rc1''])"
    and "set (set_order [''1.21.9'', ''1.21-rc1'']) = {''1.21.9'', ''1.21-rc1''}"
    by (simp_all add: iteration_order_def)
  then have "set_order [''1.21.9'', ''1.21-rc1''] = [''1.21.9'', ''1.21-rc1'']
      \<or> set_order [''1.21.9'', ''1.21-rc1''] = [''1.21-rc1'', ''1.21.9'']"
    by (rule two_element_orders) simp
  then show ?thesis
    by (auto simp: new_game_versions_def sorted_by_key_def with_key_def
        version_key_1_21_9 version_key_1_21_rc1)
qed

theorem new_game_versions_raises_witness:
  "iteration_order remdups \<and> new_game_versions remdups ''1.21-rc1'' [''1.21.9''] = Inl TypeError"
proof -
  have h: "iteration_order remdups" by (simp add: iteration_order_def)
  show ?thesis using h new_game_versions_raises [OF h] by simp
qed

section \<open>Merging twice\<close>

lemma new_game_versions_Inr:
  assumes "iteration_order set_order" and "new_game_versions set_order target current = Inr new"
  shows "set new = insert target (set current)" and "distinct new" and "sorted_wrt label_le new"
proof -
  let ?xs = "set_order (current @ [target])"
  from assms(1) have xs: "distinct ?xs" "set ?xs = insert target (set current)"
    by (simp_all add: iteration_order_def)
  from assms(2) have s: "sorted_by_key ?xs = Inr new" by (simp add: new_game_versions_def)
  from sorted_by_key_Inr(1) [OF s] have m: "mset new = mset ?xs" .
  from m have "set new = set ?xs" by (metis set_mset_mset)
  with xs show "set new = insert target (set current)" by simp
  from m xs show "distinct new" by (metis mset_eq_imp_distinct_iff)
  from sorted_by_key_Inr(2) [OF s] show "sorted_wrt label_le new" .
qed

lemma label_lt_version_key:
  "version_key a = Inr ka \<Longrightarrow> version_key b = Inr kb \<Longrightarrow> label_lt a b = key_lt ka kb"
  by (simp add: label_lt_def)

lemma sorted_by_key_succeeds_iff:
  "(\<exists>r. sorted_by_key xs = Inr r) \<longleftrightarrow>
   (\<forall>a\<in>set xs. \<forall>b\<in>set xs. \<exists>less. label_lt a b = Inr less)"
proof
  assume "\<exists>r. sorted_by_key xs = Inr r"
  then obtain d r' where d: "comprehension with_key xs = Inr d" and r': "sort_py d = Inr r'"
    by (auto simp: sorted_by_key_def split: sum.splits)
  show "\<forall>a\<in>set xs. \<forall>b\<in>set xs. \<exists>less. label_lt a b = Inr less"
  proof (intro ballI)
    fix a b assume "a \<in> set xs" "b \<in> set xs"
    with comprehension_with_key(1) [OF d] obtain pa pb
      where p: "pa \<in> set d" "snd pa = a" "pb \<in> set d" "snd pb = b"
      by (metis (no_types, lifting) image_iff list.set_map)
    with comprehension_with_key(2) [OF d]
    have "version_key a = Inr (fst pa)" "version_key b = Inr (fst pb)" by auto
    then show "\<exists>less. label_lt a b = Inr less"
      using sort_py_comparable [OF r' p(1) p(3)] by (simp add: label_lt_version_key)
  qed
next
  assume all: "\<forall>a\<in>set xs. \<forall>b\<in>set xs. \<exists>less. label_lt a b = Inr less"
  define g where "g = (\<lambda>v. (projr (version_key v), v))"
  have key: "version_key a = Inr (fst (g a))" if "a \<in> set xs" for a
  proof -
    from all that obtain less where "label_lt a a = Inr less" by blast
    then show ?thesis by (auto simp: label_lt_def g_def split: sum.splits)
  qed
  have "\<forall>x\<in>set xs. with_key x = Inr (g x)"
  proof
    fix x assume "x \<in> set xs"
    from key [OF this] show "with_key x = Inr (g x)"
      by (cases "version_key x") (simp_all add: with_key_def g_def)
  qed
  then have d: "comprehension with_key xs = Inr (map g xs)" by (rule comprehension_total)
  have "\<forall>p\<in>set (map g xs). \<forall>q\<in>set (map g xs). \<exists>less. key_lt (fst p) (fst q) = Inr less"
  proof (intro ballI)
    fix p q assume "p \<in> set (map g xs)" "q \<in> set (map g xs)"
    then obtain a b where ab: "a \<in> set xs" "b \<in> set xs" "p = g a" "q = g b" by auto
    with all obtain less where "label_lt a b = Inr less" by blast
    with key [OF ab(1)] key [OF ab(2)] ab(3,4)
    show "\<exists>less. key_lt (fst p) (fst q) = Inr less" by (simp add: label_lt_version_key)
  qed
  from sort_py_total [OF this] d show "\<exists>r. sorted_by_key xs = Inr r"
    by (auto simp: sorted_by_key_def)
qed

text \<open>
  Claim C6, as amended. When merging the target into a list returns a list, and no
  two different labels among the list and the target have the same key, merging the
  target into the result returns the result again, whatever the order in which sets
  are listed.
\<close>

theorem merge_idempotent_distinct_keys:
  assumes "iteration_order set_order"
    and "new_game_versions set_order target current = Inr new"
    and "inj_on version_key (insert target (set current))"
  shows "new_game_versions set_order target new = Inr new"
proof -
  note first = new_game_versions_Inr [OF assms(1,2)]
  let ?xs = "set_order (current @ [target])" and ?ys = "set_order (new @ [target])"
  from assms(1) first(1) have sets: "set ?ys = set ?xs"
    by (auto simp: iteration_order_def)
  have "\<exists>r. sorted_by_key ?xs = Inr r" using assms(2) by (simp add: new_game_versions_def)
  then have "\<exists>r. sorted_by_key ?ys = Inr r"
    unfolding sorted_by_key_succeeds_iff sets .
  then obtain new' where again: "new_game_versions set_order target new = Inr new'"
    by (auto simp: new_game_versions_def)
  note second = new_game_versions_Inr [OF assms(1) again]
  have "new' = new"
  proof (rule sorted_label_unique)
    show "set new' = set new" using first(1) second(1) by auto
    show "inj_on version_key (set new')" using assms(3) first(1) second(1) by auto
  qed (use first second in auto)
  with again show ?thesis by simp
qed

text \<open>
  Claim C6, as stated, fails where two labels have the same key: 1.0 and 1-0 both
  have the key of the numbers 1 and 0. The sort keeps them in the order in which the
  set is listed, and with an order of listing that depends on the order of insertion
  the second merge returns them the other way round.
\<close>

theorem merge_not_idempotent:
  "iteration_order reversed_order
   \<and> new_game_versions reversed_order ''2'' [''1.0'', ''1-0''] = Inr [''1-0'', ''1.0'', ''2'']
   \<and> new_game_versions reversed_order ''2'' [''1-0'', ''1.0'', ''2''] = Inr [''1.0'', ''1-0'', ''2'']"
  by (simp add: iteration_order_def reversed_order_def new_game_versions_def
      sorted_by_key_def with_key_def key_defs)

theorem merge_idempotent_distinct_keys_witness:
  "iteration_order reversed_order
   \<and> new_game_versions reversed_order ''1.21.9'' [''1.21.10'', ''1.21''] = Inr [''1.21'', ''1.21.9'', ''1.21.10'']
   \<and> inj_on version_key (insert ''1.21.9'' (set [''1.21.10'', ''1.21'']))
   \<and> new_game_versions reversed_order ''1.21.9'' [''1.21'', ''1.21.9'', ''1.21.10''] = Inr [''1.21'', ''1.21.9'', ''1.21.10'']"
proof -
  have a: "iteration_order reversed_order"
    by (simp add: iteration_order_def reversed_order_def)
  have b: "new_game_versions reversed_order ''1.21.9'' [''1.21.10'', ''1.21''] = Inr [''1.21'', ''1.21.9'', ''1.21.10'']"
    by (simp add: reversed_order_def new_game_versions_def sorted_by_key_def with_key_def key_defs)
  have c: "inj_on version_key (insert ''1.21.9'' (set [''1.21.10'', ''1.21'']))"
    by (simp add: key_defs)
  from a b c merge_idempotent_distinct_keys [OF a b c] show ?thesis by simp
qed

section \<open>Requests and counter along a run\<close>

lemma successes_append:
  "successes net i (xs @ ys) = successes net i xs + successes net (i + length xs) ys"
proof (induction xs arbitrary: i)
  case Nil
  then show ?case by simp
next
  case (Cons r xs)
  then show ?case by (cases r) simp_all
qed

lemma extends_refl: "extends net P s s"
  by (simp add: extends_def)

lemma extends_print: "extends net P s s' \<Longrightarrow> extends net P s (print l s')"
  by (simp add: extends_def print_def)

lemma extends_print_left: "extends net P (print l s) s' \<Longrightarrow> extends net P s s'"
  by (simp add: extends_def print_def)

lemma extends_trans:
  assumes "extends net P s s'" and "extends net P s' s''"
  shows "extends net P s s''"
proof -
  from assms(1) obtain a where a: "requests s' = requests s @ a" "list_all P a"
    "total_updated s' = total_updated s + successes net (length (requests s)) a"
    by (auto simp: extends_def)
  from assms(2) obtain b where b: "requests s'' = requests s' @ b" "list_all P b"
    "total_updated s'' = total_updated s' + successes net (length (requests s')) b"
    by (auto simp: extends_def)
  have "requests s'' = requests s @ (a @ b)" using a b by simp
  moreover have "list_all P (a @ b)" using a b by simp
  moreover have "total_updated s'' = total_updated s + successes net (length (requests s)) (a @ b)"
    using a b by (simp add: successes_append)
  ultimately show ?thesis unfolding extends_def by blast
qed

lemma extends_mono:
  assumes "extends net P s s'" and "\<And>r. P r \<Longrightarrow> Q r"
  shows "extends net Q s s'"
  using assms unfolding extends_def list_all_iff by blast

lemma update_version_skip:
  "target \<in> set (current_game_versions v) \<Longrightarrow>
   update_version set_order net target s v
     = Inr (print (Skipping (r_name v) (r_version_number v) target) s)"
  by (simp add: update_version_def)

lemma update_version_extends:
  "extends net (write_for set_order target v) s
     (final_state (update_version set_order net target s v))"
proof (cases "target \<in> set (current_game_versions v)")
  case True
  then show ?thesis
    by (simp add: update_version_skip final_state_def extends_print extends_refl)
next
  case False
  show ?thesis
  proof (cases "new_game_versions set_order target (current_game_versions v)")
    case (Inl e)
    with False show ?thesis
      by (simp add: update_version_def final_state_def extends_refl)
  next
    case (Inr new)
    with False show ?thesis
      by (auto simp: update_version_def final_state_def extends_def patch_project_version_def
          print_def send_def write_for_def Let_def split: option.splits)
  qed
qed

lemma update_versions_extends:
  "extends net (\<lambda>r. \<exists>v\<in>set vs. write_for set_order target v r) s
     (final_state (update_versions set_order net target s vs))"
proof (induction vs arbitrary: s)
  case Nil
  then show ?case by (simp add: final_state_def extends_refl)
next
  case (Cons v vs)
  let ?P = "\<lambda>r. \<exists>v\<in>set (v # vs). write_for set_order target v r"
  have step: "extends net ?P s (final_state (update_version set_order net target s v))"
    by (rule extends_mono [OF update_version_extends]) simp
  show ?case
  proof (cases "update_version set_order net target s v")
    case (Inl x)
    with step show ?thesis by simp
  next
    case (Inr s')
    have "extends net ?P s' (final_state (update_versions set_order net target s' vs))"
      by (rule extends_mono [OF Cons.IH]) simp
    with step Inr show ?thesis by (auto simp: final_state_def intro: extends_trans)
  qed
qed

lemma get_project_versions_cases:
  "get_project_versions net slug s = (all, s') \<Longrightarrow>
   requests s' = requests s @ [GET slug] \<and> total_updated s' = total_updated s \<and>
   (all = [] \<or> get_response net (length (requests s)) slug = Inr all)"
  by (auto simp: get_project_versions_def print_def send_def split: sum.splits)

lemma process_project_extends:
  "extends net (\<lambda>r. r = GET (fst project) \<or> selected_write set_order net target project r) s
     (final_state (process_project set_order net target s project))"
proof -
  let ?P = "\<lambda>r. r = GET (fst project) \<or> selected_write set_order net target project r"
  obtain all s2 where g: "get_project_versions net (fst project) (print (ProcessingProject (fst project)) s) = (all, s2)"
    by (cases "get_project_versions net (fst project) (print (ProcessingProject (fst project)) s)")
  from get_project_versions_cases [OF g]
  have s2: "requests s2 = requests s @ [GET (fst project)]" "total_updated s2 = total_updated s"
    and resp: "all = [] \<or> get_response net (length (requests s)) (fst project) = Inr all"
    by (simp_all add: print_def)
  have first: "extends net ?P s s2"
    unfolding extends_def using s2 by (intro exI [of _ "[GET (fst project)]"]) simp
  show ?thesis
  proof (cases "all = []")
    case True
    with g first show ?thesis by (simp add: process_project_def final_state_def)
  next
    case False
    with resp have resp': "get_response net (length (requests s)) (fst project) = Inr all" by simp
    define sel where "sel = versions_to_patch (snd project) all"
    define s3 where "s3 = (if sel = [] then print (NoMatchingVersions (fst project) (snd project)) s2 else s2)"
    have "extends net ?P s s3" using first by (simp add: s3_def extends_print)
    moreover have "extends net ?P s3 (final_state (update_versions set_order net target s3 sel))"
      by (rule extends_mono [OF update_versions_extends])
        (use resp' in \<open>auto simp: selected_write_def sel_def\<close>)
    ultimately have loop: "extends net ?P s (final_state (update_versions set_order net target s3 sel))"
      by (rule extends_trans)
    have "final_state (process_project set_order net target s project)
        = (case update_versions set_order net target s3 sel of
             Inl x \<Rightarrow> snd x | Inr s4 \<Rightarrow> print (Print separator) s4)"
      using g False
      by (simp add: process_project_def final_state_def sel_def s3_def Let_def split: sum.splits prod.splits)
    with loop show ?thesis
      by (auto simp: final_state_def extends_print split: sum.splits prod.splits)
  qed
qed

lemma process_projects_extends:
  "extends net (\<lambda>r. (\<exists>slug. r = GET slug) \<or> (\<exists>project\<in>set ps. selected_write set_order net target project r)) s
     (final_state (process_projects set_order net target s ps))"
proof (induction ps arbitrary: s)
  case Nil
  then show ?case by (simp add: final_state_def extends_refl)
next
  case (Cons p ps)
  let ?P = "\<lambda>r. (\<exists>slug. r = GET slug) \<or> (\<exists>project\<in>set (p # ps). selected_write set_order net target project r)"
  have step: "extends net ?P s (final_state (process_project set_order net target s p))"
    by (rule extends_mono [OF process_project_extends]) auto
  show ?case
  proof (cases "process_project set_order net target s p")
    case (Inl x)
    with step show ?thesis by simp
  next
    case (Inr s')
    have "extends net ?P s' (final_state (process_projects set_order net target s' ps))"
      by (rule extends_mono [OF Cons.IH]) auto
    with step Inr show ?thesis by (auto simp: final_state_def intro: extends_trans)
  qed
qed

lemma main_extends:
  "extends net
     (\<lambda>r. (\<exists>slug. r = GET slug) \<or>
          (\<exists>projects. cfg = Loaded projects \<and>
             (\<exists>project\<in>set projects. selected_write set_order net (argv ! 1) project r)))
     initial (snd (main argv token cfg set_order net))"
proof (cases "length argv < 2 \<or> token = None \<or> token = Some []")
  case True
  then show ?thesis by (auto simp: main_def Let_def intro!: extends_print extends_refl)
next
  case start: False
  show ?thesis
  proof (cases cfg)
    case (Loaded projects)
    let ?s1 = "print (TargetVersion (argv ! 1)) (print (Print starting_message) initial)"
    let ?r = "process_projects set_order net (argv ! 1) ?s1 projects"
    have "extends net (\<lambda>r. (\<exists>slug. r = GET slug) \<or>
             (\<exists>project\<in>set projects. selected_write set_order net (argv ! 1) project r))
            ?s1 (final_state ?r)"
      by (rule process_projects_extends)
    then have "extends net (\<lambda>r. (\<exists>slug. r = GET slug) \<or>
             (\<exists>project\<in>set projects. selected_write set_order net (argv ! 1) project r))
            initial (final_state ?r)"
      by (simp add: extends_def print_def)
    then have loop: "extends net (\<lambda>r. (\<exists>slug. r = GET slug) \<or>
          (\<exists>projects. cfg = Loaded projects \<and>
             (\<exists>project\<in>set projects. selected_write set_order net (argv ! 1) project r)))
            initial (final_state ?r)"
      by (rule extends_mono) (use Loaded in auto)
    show ?thesis
    proof (cases "projects = []")
      case True
      with start Loaded show ?thesis
        by (auto simp: main_def Let_def intro!: extends_print extends_refl)
    next
      case False
      have "snd (main argv token cfg set_order net)
          = (case ?r of Inl x \<Rightarrow> snd x | Inr s \<Rightarrow> print (Done (total_updated s)) s)"
        using start Loaded False by (auto simp: main_def Let_def split: sum.splits)
      with loop show ?thesis
        by (auto simp: final_state_def extends_print split: sum.splits prod.splits)
    qed
  qed (use start in \<open>auto simp: main_def Let_def intro!: extends_print extends_refl\<close>)
qed

lemma main_requests:
  "list_all (\<lambda>r. (\<exists>slug. r = GET slug) \<or>
          (\<exists>projects. cfg = Loaded projects \<and>
             (\<exists>project\<in>set projects. selected_write set_order net (argv ! 1) project r)))
     (requests (snd (main argv token cfg set_order net)))"
  and main_total:
  "total_updated (snd (main argv token cfg set_order net))
     = successes net 0 (requests (snd (main argv token cfg set_order net)))"
  using main_extends [where net = net and cfg = cfg and set_order = set_order and argv = argv and token = token]
  by (auto simp: extends_def initial_def)

lemma main_writes:
  assumes "PATCH version_id new \<in> set (requests (snd (main argv token cfg set_order net)))"
  shows "\<exists>projects project. cfg = Loaded projects \<and> project \<in> set projects \<and>
           selected_write set_order net (argv ! 1) project (PATCH version_id new)"
  using main_requests [where net = net and cfg = cfg and set_order = set_order and argv = argv and token = token] assms
  unfolding list_all_iff by blast

lemma main_done:
  assumes "main argv token cfg set_order net = (Exit 0, s)" and "cfg = Loaded projects"
    and "projects \<noteq> []"
  shows "last (stdout s) = Done (successes net 0 (requests s))"
proof -
  from assms obtain s' where "s = print (Done (total_updated s')) s'"
    by (auto simp: main_def Let_def split: if_splits sum.splits prod.splits)
  then have "last (stdout s) = Done (total_updated s)"
    by (simp add: print_def)
  with main_total [where net = net and cfg = cfg and set_order = set_order and argv = argv and token = token] assms(1) show ?thesis by simp
qed

section \<open>The claims about a run\<close>

lemmas run_defs = main_def initial_def print_def send_def process_project_def
  get_project_versions_def patch_project_version_def update_version_def versions_to_patch_def
  current_game_versions_def new_game_versions_def sorted_by_key_def with_key_def
  example_network_def flaky_network_def example_release_def

lemma example_run:
  "main [''main.py'', ''1.20.1''] (Some ''token'') (Loaded [(''modA'', [''1.0.0''])]) remdups
     (example_network [example_release ''id1'' ''1.0.0'' [''1.19.4'']])
   = (Exit 0,
      \<lparr>stdout = [Print starting_message, TargetVersion ''1.20.1'', ProcessingProject ''modA'',
                 Updating (Some ''1.0.0'') (Some ''1.0.0'') [''1.19.4''] [''1.19.4'', ''1.20.1''],
                 Print separator, Done 1],
       requests = [GET ''modA'', PATCH (Some ''id1'') [''1.19.4'', ''1.20.1'']],
       total_updated = 1\<rparr>)"
  by (simp add: run_defs key_defs Let_def)

lemma count_list_distinct: "distinct xs \<Longrightarrow> x \<in> set xs \<Longrightarrow> count_list xs x = 1"
  by (induction xs) auto

text \<open>
  Claim C1. Every write request of a run is for a release that the catalog returned
  for a configured project and whose label is configured; the list it carries is
  the merge of the target into the list of that release: it holds every version the
  release had, holds the target exactly once, holds nothing twice, and is in
  ascending order of the keys.
\<close>

theorem patched_list_invariant:
  assumes "iteration_order set_order"
    and "PATCH version_id new \<in> set (requests (snd (main argv token cfg set_order net)))"
  shows "\<exists>projects project n all_mod_versions v.
           cfg = Loaded projects \<and> project \<in> set projects \<and>
           get_response net n (fst project) = Inr all_mod_versions \<and>
           v \<in> set (versions_to_patch (snd project) all_mod_versions) \<and>
           version_id = r_id v \<and>
           new_game_versions set_order (argv ! 1) (current_game_versions v) = Inr new \<and>
           set (current_game_versions v) \<subseteq> set new \<and>
           count_list new (argv ! 1) = 1 \<and> distinct new \<and> sorted_wrt label_le new"
proof -
  from main_writes [OF assms(2)] obtain projects project n all_mod_versions v
    where origin: "cfg = Loaded projects" "project \<in> set projects"
      "get_response net n (fst project) = Inr all_mod_versions"
      "v \<in> set (versions_to_patch (snd project) all_mod_versions)"
    and w: "write_for set_order (argv ! 1) v (PATCH version_id new)"
    unfolding selected_write_def by blast
  from w have merged: "new_game_versions set_order (argv ! 1) (current_game_versions v) = Inr new"
    and vid: "version_id = r_id v"
    by (auto simp: write_for_def split: sum.splits)
  note props = new_game_versions_Inr [OF assms(1) merged]
  have "set (current_game_versions v) \<subseteq> set new" using props(1) by auto
  moreover have "count_list new (argv ! 1) = 1"
    using props(1,2) by (simp add: count_list_distinct)
  ultimately show ?thesis using origin merged vid props(2,3) by blast
qed

theorem patched_list_invariant_witness:
  "iteration_order remdups
   \<and> PATCH (Some ''id1'') [''1.19.4'', ''1.20.1'']
       \<in> set (requests (snd (main [''main.py'', ''1.20.1''] (Some ''token'')
            (Loaded [(''modA'', [''1.0.0''])]) remdups
            (example_network [example_release ''id1'' ''1.0.0'' [''1.19.4'']]))))
   \<and> (\<exists>v. Some ''id1'' = r_id v
        \<and> set (current_game_versions v) \<subseteq> set [''1.19.4'', ''1.20.1'']
        \<and> count_list [''1.19.4'', ''1.20.1''] ''1.20.1'' = 1
        \<and> distinct [''1.19.4'', ''1.20.1'']
        \<and> sorted_wrt label_le [''1.19.4'', ''1.20.1''])"
proof -
  have a: "iteration_order remdups" by (simp add: iteration_order_def)
  have b: "PATCH (Some ''id1'') [''1.19.4'', ''1.20.1'']
       \<in> set (requests (snd (main [''main.py'', ''1.20.1''] (Some ''token'')
            (Loaded [(''modA'', [''1.0.0''])]) remdups
            (example_network [example_release ''id1'' ''1.0.0'' [''1.19.4'']]))))"
    by (simp add: example_run)
  from patched_list_invariant [OF a b] have
    "\<exists>v. Some ''id1'' = r_id v
        \<and> set (current_game_versions v) \<subseteq> set [''1.19.4'', ''1.20.1'']
        \<and> count_list [''1.19.4'', ''1.20.1''] ''1.20.1'' = 1
        \<and> distinct [''1.19.4'', ''1.20.1'']
        \<and> sorted_wrt label_le [''1.19.4'', ''1.20.1'']"
    by (elim exE conjE, intro exI conjI) simp_all
  with a b show ?thesis by blast
qed

text \<open>
  Claim C3. For a release whose list holds the target the loop body only prints the
  skip notice: requests and counter stay as they are. And every write request of a
  run is for a selected release whose list lacks the target.
\<close>

theorem skip_issues_no_write:
  "(target \<in> set (current_game_versions v) \<longrightarrow>
      update_version set_order net target s v
        = Inr (print (Skipping (r_name v) (r_version_number v) target) s))
   \<and> (PATCH version_id new \<in> set (requests (snd (main argv token cfg set_order net))) \<longrightarrow>
        (\<exists>projects project n all_mod_versions v'.
           cfg = Loaded projects \<and> project \<in> set projects \<and>
           get_response net n (fst project) = Inr all_mod_versions \<and>
           v' \<in> set (versions_to_patch (snd project) all_mod_versions) \<and>
           version_id = r_id v' \<and> argv ! 1 \<notin> set (current_game_versions v')))"
proof (intro conjI impI)
  assume "target \<in> set (current_game_versions v)"
  then show "update_version set_order net target s v
        = Inr (print (Skipping (r_name v) (r_version_number v) target) s)"
    by (rule update_version_skip)
next
  assume "PATCH version_id new \<in> set (requests (snd (main argv token cfg set_order net)))"
  from main_writes [OF this] obtain projects project n all_mod_versions v'
    where origin: "cfg = Loaded projects" "project \<in> set projects"
      "get_response net n (fst project) = Inr all_mod_versions"
      "v' \<in> set (versions_to_patch (snd project) all_mod_versions)"
    and w: "write_for set_order (argv ! 1) v' (PATCH version_id new)"
    unfolding selected_write_def by blast
  from w have "version_id = r_id v'" "argv ! 1 \<notin> set (current_game_versions v')"
    by (auto simp: write_for_def split: sum.splits)
  with origin show "\<exists>projects project n all_mod_versions v'.
           cfg = Loaded projects \<and> project \<in> set projects \<and>
           get_response net n (fst project) = Inr all_mod_versions \<and>
           v' \<in> set (versions_to_patch (snd project) all_mod_versions) \<and>
           version_id = r_id v' \<and> argv ! 1 \<notin> set (current_game_versions v')"
    by blast
qed

theorem skip_issues_no_write_witness:
  "''1.20.1'' \<in> set (current_game_versions (example_release ''id1'' ''1.0.0'' [''1.19.4'', ''1.20.1'']))
   \<and> requests (final_state (update_version remdups (example_network [example_release ''id1'' ''1.0.0'' [''1.19.4'']]) ''1.20.1'' initial
        (example_release ''id1'' ''1.0.0'' [''1.19.4'', ''1.20.1'']))) = []
   \<and> PATCH (Some ''id1'') [''1.19.4'', ''1.20.1'']
       \<in> set (requests (snd (main [''main.py'', ''1.20.1''] (Some ''token'')
            (Loaded [(''modA'', [''1.0.0''])]) remdups
            (example_network [example_release ''id1'' ''1.0.0'' [''1.19.4'']]))))
   \<and> (\<exists>v'. Some ''id1'' = r_id v' \<and> ''1.20.1'' \<notin> set (current_game_versions v'))"
proof -
  let ?v = "example_release ''id1'' ''1.0.0'' [''1.19.4'', ''1.20.1'']"
  let ?run = "main [''main.py'', ''1.20.1''] (Some ''token'')
            (Loaded [(''modA'', [''1.0.0''])]) remdups
            (example_network [example_release ''id1'' ''1.0.0'' [''1.19.4'']])"
  note inst = skip_issues_no_write [where target = "''1.20.1''" and v = ?v and s = initial
      and set_order = remdups and net = "example_network [example_release ''id1'' ''1.0.0'' [''1.19.4'']]"
      and version_id = "Some ''id1''" and new = "[''1.19.4'', ''1.20.1'']"
      and argv = "[''main.py'', ''1.20.1'']" and token = "Some ''token''"
      and cfg = "Loaded [(''modA'', [''1.0.0''])]"]
  have a: "''1.20.1'' \<in> set (current_game_versions ?v)"
    by (simp add: current_game_versions_def example_release_def)
  have b: "PATCH (Some ''id1'') [''1.19.4'', ''1.20.1''] \<in> set (requests (snd ?run))"
    by (simp add: example_run)
  from inst [THEN conjunct1, THEN mp, OF a]
  have "requests (final_state (update_version remdups (example_network [example_release ''id1'' ''1.0.0'' [''1.19.4'']]) ''1.20.1''
      initial ?v)) = []"
    by (simp add: final_state_def print_def initial_def)
  moreover from inst [THEN conjunct2, THEN mp, OF b]
  have "\<exists>v'. Some ''id1'' = r_id v' \<and> ''1.20.1'' \<notin> set (current_game_versions v')"
    by (elim exE conjE, intro exI conjI) simp_all
  ultimately show ?thesis using a b by blast
qed

text \<open>
  Claim C9. The releases selected for a project are those of the catalog's answer
  whose label is among the configured labels, in the order of the answer; of the
  releases labelled 1.0, 1.1 and 2.0 the labels 1.0 and 2.0 select the first and the
  third. Every write request of a run is for a release so selected.
\<close>

theorem selection_by_label:
  "versions_to_patch labels all_mod_versions
     = filter (\<lambda>v. \<exists>n\<in>set labels. r_version_number v = Some n) all_mod_versions
   \<and> versions_to_patch [''1.0'', ''2.0'']
       [example_release ''a'' ''1.0'' ga, example_release ''b'' ''1.1'' gb,
        example_release ''c'' ''2.0'' gc]
     = [example_release ''a'' ''1.0'' ga, example_release ''c'' ''2.0'' gc]
   \<and> (PATCH version_id new \<in> set (requests (snd (main argv token cfg set_order net))) \<longrightarrow>
        (\<exists>projects project n all v.
           cfg = Loaded projects \<and> project \<in> set projects \<and>
           get_response net n (fst project) = Inr all \<and> v \<in> set all \<and>
           (\<exists>l\<in>set (snd project). r_version_number v = Some l) \<and> version_id = r_id v))"
proof (intro conjI impI)
  show sel: "versions_to_patch labels all_mod_versions
     = filter (\<lambda>v. \<exists>n\<in>set labels. r_version_number v = Some n) all_mod_versions"
    for labels all_mod_versions
    unfolding versions_to_patch_def
    by (rule filter_cong) (auto split: option.splits)
  show "versions_to_patch [''1.0'', ''2.0'']
       [example_release ''a'' ''1.0'' ga, example_release ''b'' ''1.1'' gb,
        example_release ''c'' ''2.0'' gc]
     = [example_release ''a'' ''1.0'' ga, example_release ''c'' ''2.0'' gc]"
    by (simp add: versions_to_patch_def example_release_def)
  assume "PATCH version_id new \<in> set (requests (snd (main argv token cfg set_order net)))"
  from main_writes [OF this] obtain projects project n all v
    where origin: "cfg = Loaded projects" "project \<in> set projects"
      "get_response net n (fst project) = Inr all"
      "v \<in> set (versions_to_patch (snd project) all)"
    and w: "write_for set_order (argv ! 1) v (PATCH version_id new)"
    unfolding selected_write_def by blast
  from w have "version_id = r_id v" by (auto simp: write_for_def split: sum.splits)
  moreover from origin(4) have "v \<in> set all" "\<exists>l\<in>set (snd project). r_version_number v = Some l"
    by (simp_all add: sel)
  ultimately show "\<exists>projects project n all v.
           cfg = Loaded projects \<and> project \<in> set projects \<and>
           get_response net n (fst project) = Inr all \<and> v \<in> set all \<and>
           (\<exists>l\<in>set (snd project). r_version_number v = Some l) \<and> version_id = r_id v"
    using origin(1,2,3) by blast
qed

theorem selection_by_label_witness:
  "PATCH (Some ''id1'') [''1.19.4'', ''1.20.1'']
       \<in> set (requests (snd (main [''main.py'', ''1.20.1''] (Some ''token'')
            (Loaded [(''modA'', [''1.0.0''])]) remdups
            (example_network [example_release ''id1'' ''1.0.0'' [''1.19.4'']]))))
   \<and> (\<exists>project (v :: release). project \<in> set [(''modA'', [''1.0.0''])]
        \<and> (\<exists>l\<in>set (snd project). r_version_number v = Some l) \<and> Some ''id1'' = r_id v)"
proof -
  have b: "PATCH (Some ''id1'') [''1.19.4'', ''1.20.1'']
       \<in> set (requests (snd (main [''main.py'', ''1.20.1''] (Some ''token'')
            (Loaded [(''modA'', [''1.0.0''])]) remdups
            (example_network [example_release ''id1'' ''1.0.0'' [''1.19.4'']]))))"
    by (simp add: example_run)
  from selection_by_label [where version_id = "Some ''id1''" and new = "[''1.19.4'', ''1.20.1'']"
      and argv = "[''main.py'', ''1.20.1'']" and token = "Some ''token''"
      and cfg = "Loaded [(''modA'', [''1.0.0''])]" and set_order = remdups
      and net = "example_network [example_release ''id1'' ''1.0.0'' [''1.19.4'']]",
      THEN conjunct2, THEN conjunct2, THEN mp, OF b]
  have "\<exists>project (v :: release). project \<in> set [(''modA'', [''1.0.0''])]
        \<and> (\<exists>l\<in>set (snd project). r_version_number v = Some l) \<and> Some ''id1'' = r_id v"
  proof (elim exE conjE)
    fix projects and project :: "string \<times> string list" and v :: release
    assume "Loaded [(''modA'', [''1.0.0''])] = Loaded projects" "project \<in> set projects"
      "\<exists>l\<in>set (snd project). r_version_number v = Some l" "Some ''id1'' = r_id v"
    then have "project \<in> set [(''modA'', [''1.0.0''])]
        \<and> (\<exists>l\<in>set (snd project). r_version_number v = Some l) \<and> Some ''id1'' = r_id v"
      by auto
    then show ?thesis by blast
  qed
  with b show ?thesis by blast
qed

text \<open>The merge is the only step of the loops that can raise.\<close>

lemma update_version_Inl:
  "update_version set_order net target s v = Inl x \<Longrightarrow>
   target \<notin> set (current_game_versions v) \<and> x = (fst x, s) \<and>
   new_game_versions set_order target (current_game_versions v) = Inl (fst x)"
  by (auto simp: update_version_def Let_def split: if_splits sum.splits prod.splits)

text \<open>
  Claim C4. With the argument, the token and the configuration in place, a run whose
  target is 1.21-rc1 and whose only selected release supports 1.21.9 ends by the
  \<^verbatim>\<open>TypeError\<close> of the sort, before any write and without the summary line; the exit
  code of the process is then 1.
\<close>

theorem uncaught_exception_exit_code:
  "main [''main.py'', ''1.21-rc1''] (Some ''token'') (Loaded [(''modA'', [''1.0.0''])]) remdups
     (example_network [example_release ''id1'' ''1.0.0'' [''1.21.9'']])
   = (Uncaught TypeError,
      \<lparr>stdout = [Print starting_message, TargetVersion ''1.21-rc1'', ProcessingProject ''modA''],
       requests = [GET ''modA''], total_updated = 0\<rparr>)
   \<and> exit_code (Uncaught TypeError) = 1"
  by (simp add: run_defs key_defs Let_def)

text \<open>
  A listing that fails by itself stops nothing: \<^verbatim>\<open>get_project_versions\<close> prints the
  line that names the project and the error and returns the empty list; the loop
  over the projects goes on with the remaining projects from the state so reached;
  and the counter of the state in which the loop ends, by its last project or by an
  exception, is the counter before plus the number of successful writes among the
  requests sent for the remaining projects.
\<close>

lemma fetch_failure_continues:
  assumes "get_response net (length (requests s)) slug = Inl e"
  shows "get_project_versions net slug s = ([], print (FetchFailed slug e) (send (GET slug) s))
    \<and> process_projects set_order net target s ((slug, labels) # rest)
        = process_projects set_order net target
            (print (FetchFailed slug e) (send (GET slug) (print (ProcessingProject slug) s))) rest
    \<and> total_updated (final_state (process_projects set_order net target s ((slug, labels) # rest)))
        = total_updated s
          + successes net (Suc (length (requests s)))
              (drop (Suc (length (requests s)))
                 (requests (final_state (process_projects set_order net target s ((slug, labels) # rest)))))"
proof (intro conjI)
  show "get_project_versions net slug s = ([], print (FetchFailed slug e) (send (GET slug) s))"
    using assms by (simp add: get_project_versions_def)
  let ?s' = "print (FetchFailed slug e) (send (GET slug) (print (ProcessingProject slug) s))"
  have "process_project set_order net target s (slug, labels) = Inr ?s'"
    using assms by (simp add: process_project_def get_project_versions_def print_def send_def)
  then show skip: "process_projects set_order net target s ((slug, labels) # rest)
        = process_projects set_order net target ?s' rest"
    by simp
  have s': "requests ?s' = requests s @ [GET slug]" "total_updated ?s' = total_updated s"
    by (simp_all add: print_def send_def)
  from process_projects_extends [where net = net and set_order = set_order and target = target
      and ps = rest and s = ?s']
  obtain added where added:
    "requests (final_state (process_projects set_order net target ?s' rest)) = requests ?s' @ added"
    "total_updated (final_state (process_projects set_order net target ?s' rest))
       = total_updated ?s' + successes net (length (requests ?s')) added"
    unfolding extends_def by blast
  from added(1) have "drop (Suc (length (requests s)))
      (requests (final_state (process_projects set_order net target ?s' rest))) = added"
    by (simp add: s')
  with added(2) show "total_updated (final_state (process_projects set_order net target s ((slug, labels) # rest)))
        = total_updated s
          + successes net (Suc (length (requests s)))
              (drop (Suc (length (requests s)))
                 (requests (final_state (process_projects set_order net target s ((slug, labels) # rest)))))"
    unfolding skip by (simp add: s')
qed

lemma flaky_run:
  "process_projects remdups
     (flaky_network [example_release ''id1'' ''1.0.0'' [''1.19.4''],
                     example_release ''id2'' ''1.0.1'' [''1.19.4'']])
     ''1.20.1'' initial [(''broken'', [''0.1'']), (''modA'', [''1.0.0'', ''1.0.1''])]
   = Inr \<lparr>stdout = [ProcessingProject ''broken'', FetchFailed ''broken'' ''timed out'',
                     ProcessingProject ''modA'',
                     Updating (Some ''1.0.0'') (Some ''1.0.0'') [''1.19.4''] [''1.19.4'', ''1.20.1''],
                     UpdateFailed (Some ''id1'') ''503'',
                     Updating (Some ''1.0.1'') (Some ''1.0.1'') [''1.19.4''] [''1.19.4'', ''1.20.1''],
                     Print separator],
           requests = [GET ''broken'', GET ''modA'',
                       PATCH (Some ''id1'') [''1.19.4'', ''1.20.1''],
                       PATCH (Some ''id2'') [''1.19.4'', ''1.20.1'']],
           total_updated = 1\<rparr>"
  by (simp add: run_defs key_defs Let_def)

text \<open>
  Claim C7. The listing of the first project fails and is reported, and the loop
  goes on to the second project; there the target 1.21-rc1 meets a release that
  supports 1.21.9, and the run ends by the \<^verbatim>\<open>TypeError\<close> of the sort: the processing
  of the projects after the failed one does not complete, no write is sent, and no
  total is printed.
\<close>

theorem fetch_failure_then_uncaught_exception:
  "main [''main.py'', ''1.21-rc1''] (Some ''token'')
     (Loaded [(''broken'', [''0.1'']), (''modA'', [''1.0.0''])]) remdups
     (flaky_network [example_release ''id1'' ''1.0.0'' [''1.21.9'']])
   = (Uncaught TypeError,
      \<lparr>stdout = [Print starting_message, TargetVersion ''1.21-rc1'',
                 ProcessingProject ''broken'', FetchFailed ''broken'' ''timed out'',
                 ProcessingProject ''modA''],
       requests = [GET ''broken'', GET ''modA''], total_updated = 0\<rparr>)
   \<and> exit_code (Uncaught TypeError) = 1"
  by (simp add: run_defs key_defs Let_def)



end
